theory Spec2Isabelle
  imports Main
begin

section \<open>JavaScript primitives used by the page-range code\<close>

text \<open>
  Numbers are modelled as \<open>int\<close>. The source works on IEEE doubles; both agree on every
  page number and page count below \<open>2^53\<close>, which covers every document the program can
  load. \<open>NaN\<close> and \<open>undefined\<close> are \<open>None\<close>. Strings are lists of \<open>char\<close>, that is,
  texts whose code units lie below 256.
\<close>

subsection \<open>Strings\<close>

text \<open>The white space and line terminator code units below 256: TAB, LF, VT, FF, CR, SP, NBSP.\<close>

definition isWhiteSpace :: "char \<Rightarrow> bool" where
  "isWhiteSpace c \<longleftrightarrow>
     c \<in> set [CHR 0x09, CHR 0x0A, CHR 0x0B, CHR 0x0C, CHR 0x0D, CHR 0x20, CHR 0xA0]"

text \<open>\<^verbatim>\<open>String.prototype.trim\<close>\<close>

definition trim :: "string \<Rightarrow> string" where
  "trim s = rev (dropWhile isWhiteSpace (rev (dropWhile isWhiteSpace s)))"

text \<open>
  \<^verbatim>\<open>String.prototype.split(sep)\<close> for a separator of one character: \<open>cur\<close> is the piece
  being read. The empty string splits into one empty piece.
\<close>

fun split_from :: "char \<Rightarrow> string \<Rightarrow> string \<Rightarrow> string list" where
  "split_from sep cur [] = [cur]"
| "split_from sep cur (c # cs) =
     (if c = sep then cur # split_from sep [] cs else split_from sep (cur @ [c]) cs)"

definition split :: "char \<Rightarrow> string \<Rightarrow> string list" where
  "split sep s = split_from sep [] s"

text \<open>\<^verbatim>\<open>String.prototype.includes\<close> for one character\<close>

definition str_includes :: "string \<Rightarrow> char \<Rightarrow> bool" where
  "str_includes s c \<longleftrightarrow> c \<in> set s"

text \<open>\<^verbatim>\<open>Array.prototype.join\<close>\<close>

fun join :: "string \<Rightarrow> string list \<Rightarrow> string" where
  "join sep [] = []"
| "join sep [x] = x"
| "join sep (x # y # ys) = x @ sep @ join sep (y # ys)"

subsection \<open>Numbers and their decimal notation\<close>

definition isDigit :: "char \<Rightarrow> bool" where
  "isDigit c \<longleftrightarrow> c \<in> set ''0123456789''"

definition digitVal :: "char \<Rightarrow> int" where
  "digitVal c = int (of_char c) - 48"

definition digitChar :: "nat \<Rightarrow> char" where
  "digitChar d = ''0123456789'' ! (d mod 10)"

text \<open>
  \<^verbatim>\<open>parseInt(s, 10)\<close>: leading white space is skipped, one sign is read, then the longest
  run of decimal digits; with no digit the result is \<open>NaN\<close>.
\<close>

definition parseInt :: "string \<Rightarrow> int option" where
  "parseInt s =
     (let S = dropWhile isWhiteSpace s;
          sign = (if S \<noteq> [] \<and> hd S = CHR ''-'' then - 1 else 1);
          S' = (if S \<noteq> [] \<and> (hd S = CHR ''+'' \<or> hd S = CHR ''-'') then tl S else S);
          Z = takeWhile isDigit S'
      in if Z = [] then None
         else Some (sign * foldl (\<lambda>a c. 10 * a + digitVal c) 0 Z))"

text \<open>The template literal \<^verbatim>\<open>`${n}`\<close> of an integer (below \<open>10^21\<close> in magnitude).\<close>

function show_nat :: "nat \<Rightarrow> string" where
  "show_nat n = (if n < 10 then [digitChar n] else show_nat (n div 10) @ [digitChar (n mod 10)])"
  by pat_completeness auto
termination
  by (relation "measure (\<lambda>n. n)") auto

definition numToString :: "int \<Rightarrow> string" where
  "numToString n = (if n < 0 then CHR ''-'' # show_nat (nat (- n)) else show_nat (nat n))"

subsection \<open>The insertion-ordered \<^verbatim>\<open>Set\<close>\<close>

text \<open>A \<^verbatim>\<open>Set\<close> is the list of its elements in insertion order.\<close>

definition Set_has :: "'a list \<Rightarrow> 'a \<Rightarrow> bool" where
  "Set_has s x \<longleftrightarrow> x \<in> set s"

definition Set_add :: "'a list \<Rightarrow> 'a \<Rightarrow> 'a list" where
  "Set_add s x = (if Set_has s x then s else s @ [x])"

definition Set_delete :: "'a list \<Rightarrow> 'a \<Rightarrow> 'a list" where
  "Set_delete s x = filter (\<lambda>y. y \<noteq> x) s"

definition new_Set :: "'a list \<Rightarrow> 'a list" where
  "new_Set xs = foldl Set_add [] xs"

section \<open>The range parser of \<^verbatim>\<open>src/js/app.js\<close>\<close>

text \<open>The loop \<^verbatim>\<open>for (let i = start; i <= Math.min(end, totalPages); i++) pageNumbers.push(i)\<close>.\<close>

function range_loop :: "int \<Rightarrow> int \<Rightarrow> int \<Rightarrow> int list \<Rightarrow> int list" where
  "range_loop i end' totalPages pageNumbers =
     (if i \<le> min end' totalPages
      then range_loop (i + 1) end' totalPages (pageNumbers @ [i])
      else pageNumbers)"
  by pat_completeness auto
termination
  by (relation "measure (\<lambda>(i, e, t, p). nat (min e t + 1 - i))") auto

text \<open>
  \<^verbatim>\<open>const [start, end] = trimmedPart.split('-').map(num => parseInt(num.trim(), 10))\<close>:
  the first two pieces; a missing piece is \<open>undefined\<close>.
\<close>

definition range_bounds :: "string \<Rightarrow> int option \<times> int option" where
  "range_bounds trimmedPart =
     (case map (\<lambda>num. parseInt (trim num)) (split CHR ''-'' trimmedPart) of
        [] \<Rightarrow> (None, None)
      | [start] \<Rightarrow> (start, None)
      | start # end' # _ \<Rightarrow> (start, end'))"

text \<open>The body of the loop over the parts: what one part pushes onto \<open>pageNumbers\<close>.\<close>

definition parse_part :: "int \<Rightarrow> int list \<Rightarrow> string \<Rightarrow> int list" where
  "parse_part totalPages pageNumbers part =
     (let trimmedPart = trim part in
      if str_includes trimmedPart CHR ''-'' then
        (case range_bounds trimmedPart of
           (Some start, Some end') \<Rightarrow>
             if start \<ge> 1 \<and> start \<le> end'
             then range_loop start end' totalPages pageNumbers
             else pageNumbers
         | _ \<Rightarrow> pageNumbers)
      else
        (case parseInt trimmedPart of
           Some pageNum \<Rightarrow>
             if pageNum \<ge> 1 \<and> pageNum \<le> totalPages
             then pageNumbers @ [pageNum]
             else pageNumbers
         | None \<Rightarrow> pageNumbers))"

text \<open>The array \<open>pageNumbers\<close> when the loop over the parts has ended.\<close>

definition pushed_pages :: "string \<Rightarrow> int \<Rightarrow> int list" where
  "pushed_pages text totalPages = foldl (parse_part totalPages) [] (split CHR '','' text)"

definition parsePageRanges :: "string \<Rightarrow> int \<Rightarrow> int list" where
  "parsePageRanges text totalPages = new_Set (pushed_pages text totalPages)"

section \<open>The range parser of \<^verbatim>\<open>src/unnamed/part_000\<close>\<close>

text \<open>
  Here \<open>pageNumbers\<close> is a \<^verbatim>\<open>Set\<close> from the start, the loop tests
  \<^verbatim>\<open>i <= end && i <= totalPages\<close>, and the result is sorted with the comparator
  \<^verbatim>\<open>(a, b) => a - b\<close>.
\<close>

function range_loop_part000 :: "int \<Rightarrow> int \<Rightarrow> int \<Rightarrow> int list \<Rightarrow> int list" where
  "range_loop_part000 i end' totalPages pageNumbers =
     (if i \<le> end' \<and> i \<le> totalPages
      then range_loop_part000 (i + 1) end' totalPages (Set_add pageNumbers i)
      else pageNumbers)"
  by pat_completeness auto
termination
  by (relation "measure (\<lambda>(i, e, t, p). nat (min e t + 1 - i))") auto

definition parse_part_part000 :: "int \<Rightarrow> int list \<Rightarrow> string \<Rightarrow> int list" where
  "parse_part_part000 totalPages pageNumbers part =
     (let trimmedPart = trim part in
      if str_includes trimmedPart CHR ''-'' then
        (case range_bounds trimmedPart of
           (Some start, Some end') \<Rightarrow>
             if start \<ge> 1 \<and> start \<le> end'
             then range_loop_part000 start end' totalPages pageNumbers
             else pageNumbers
         | _ \<Rightarrow> pageNumbers)
      else
        (case parseInt trimmedPart of
           Some pageNum \<Rightarrow>
             if pageNum \<ge> 1 \<and> pageNum \<le> totalPages
             then Set_add pageNumbers pageNum
             else pageNumbers
         | None \<Rightarrow> pageNumbers))"

definition parsePageRanges_part000 :: "string \<Rightarrow> int \<Rightarrow> int list" where
  "parsePageRanges_part000 text totalPages =
     sort (foldl (parse_part_part000 totalPages) [] (split CHR '','' text))"

section \<open>The range formatter\<close>

text \<open>\<^verbatim>\<open>start === end ? `${start}` : `${start}-${end}`\<close>\<close>

definition range_text :: "int \<Rightarrow> int \<Rightarrow> string" where
  "range_text start end' =
     (if start = end' then numToString start
      else numToString start @ ''-'' @ numToString end')"

text \<open>The loop of \<open>formatPageRanges\<close> from index \<open>i\<close> on; it returns \<open>start\<close>, \<open>end\<close> and \<open>ranges\<close>.\<close>

function format_loop ::
  "int list \<Rightarrow> nat \<Rightarrow> int \<Rightarrow> int \<Rightarrow> string list \<Rightarrow> int \<times> int \<times> string list" where
  "format_loop pages i start end' ranges =
     (if i < length pages then
        (if pages ! i = end' + 1
         then format_loop pages (i + 1) start (pages ! i) ranges
         else format_loop pages (i + 1) (pages ! i) (pages ! i) (ranges @ [range_text start end']))
      else (start, end', ranges))"
  by pat_completeness auto
termination
  by (relation "measure (\<lambda>(pages, i, s, e, r). length pages - i)") auto

definition formatPageRanges :: "int list \<Rightarrow> string" where
  "formatPageRanges pages =
     (if length pages = 0 then []
      else (case format_loop pages 1 (pages ! 0) (pages ! 0) [] of
              (start, end', ranges) \<Rightarrow> join '','' (ranges @ [range_text start end'])))"

section \<open>The page selection of \<open>PagePreview\<close>\<close>

text \<open>
  The fields the selection code reads and writes: the \<^verbatim>\<open>Set\<close> \<open>selectedPages\<close>, the
  \<^verbatim>\<open>data-page\<close> numbers of the \<^verbatim>\<open>.page-thumbnail\<close> elements in the order they have in
  the thumbnails container, and the value of the \<^verbatim>\<open>#pages\<close> input (\<open>None\<close> when the
  document has no such element). The container itself is taken to exist. The style
  classes of the thumbnails and the \<open>onSelectionChange\<close> notification are not part of
  this state.
\<close>

record preview =
  selectedPages :: "int list"
  thumbnails :: "int list"
  pagesInput :: "string option"

definition getSelectedPagesArray :: "preview \<Rightarrow> int list" where
  "getSelectedPagesArray st =
     foldl (\<lambda>selected pageNum.
              if Set_has (selectedPages st) pageNum then selected @ [pageNum] else selected)
       [] (thumbnails st)"

definition updatePagesInput :: "preview \<Rightarrow> preview" where
  "updatePagesInput st =
     (case pagesInput st of
        None \<Rightarrow> st
      | Some _ \<Rightarrow> st\<lparr>pagesInput := Some (formatPageRanges (getSelectedPagesArray st))\<rparr>)"

definition togglePageSelection :: "int \<Rightarrow> preview \<Rightarrow> preview" where
  "togglePageSelection pageNum st =
     updatePagesInput
       (if Set_has (selectedPages st) pageNum
        then st\<lparr>selectedPages := Set_delete (selectedPages st) pageNum\<rparr>
        else st\<lparr>selectedPages := Set_add (selectedPages st) pageNum\<rparr>)"

text \<open>\<open>selectAll\<close> adds \<open>index + 1\<close> for every thumbnail, \<open>index\<close> being its position.\<close>

definition selectAll :: "preview \<Rightarrow> preview" where
  "selectAll st =
     updatePagesInput
       (st\<lparr>selectedPages :=
            foldl (\<lambda>s index. Set_add s (int index + 1)) (selectedPages st)
              [0 ..< length (thumbnails st)]\<rparr>)"

definition deselectAll :: "preview \<Rightarrow> preview" where
  "deselectAll st = updatePagesInput (st\<lparr>selectedPages := []\<rparr>)"

text \<open>
  Dropping a dragged thumbnail on another one. Thumbnails are told apart by their page
  number. \<open>nextSibling\<close> is \<open>None\<close> for the last child; \<open>insertBefore\<close> takes the node out
  of its place and puts it before the reference child, or at the end when there is none
  (a node inserted before itself goes before its next sibling).
\<close>

definition nextSibling :: "int \<Rightarrow> int list \<Rightarrow> int option" where
  "nextSibling element children =
     (case dropWhile (\<lambda>c. c \<noteq> element) children of
        _ # n # _ \<Rightarrow> Some n
      | _ \<Rightarrow> None)"

definition insertBefore :: "int \<Rightarrow> int option \<Rightarrow> int list \<Rightarrow> int list" where
  "insertBefore node child children =
     (let child' = (if child = Some node then nextSibling node children else child);
          others = remove1 node children
      in case child' of
           None \<Rightarrow> others @ [node]
         | Some r \<Rightarrow> takeWhile (\<lambda>c. c \<noteq> r) others @ node # dropWhile (\<lambda>c. c \<noteq> r) others)"

definition thumbnail_drop :: "int \<Rightarrow> int \<Rightarrow> bool \<Rightarrow> preview \<Rightarrow> preview" where
  "thumbnail_drop draggingPageNum element leftHalf st =
     (if draggingPageNum \<in> set (thumbnails st) \<and> draggingPageNum \<noteq> element
      then updatePagesInput
             (st\<lparr>thumbnails :=
                  (if leftHalf
                   then insertBefore draggingPageNum (Some element) (thumbnails st)
                   else insertBefore draggingPageNum (nextSibling element (thumbnails st))
                          (thumbnails st))\<rparr>)
      else st)"

section \<open>Reordering the files to merge\<close>

text \<open>
  An array is a list whose elements may be \<open>undefined\<close> (\<open>None\<close>). \<open>array_get\<close> is
  \<^verbatim>\<open>xs[i]\<close>; \<open>relative_start\<close> is the start position \<^verbatim>\<open>splice\<close> computes from its first
  argument; \<open>splice_delete1\<close> is \<^verbatim>\<open>xs.splice(start, 1)\<close> and \<open>splice_insert\<close> is
  \<^verbatim>\<open>xs.splice(start, 0, item)\<close>, both giving the array afterwards.
\<close>

definition array_get :: "'a option list \<Rightarrow> int \<Rightarrow> 'a option" where
  "array_get xs i = (if 0 \<le> i \<and> i < int (length xs) then xs ! nat i else None)"

definition relative_start :: "int \<Rightarrow> nat \<Rightarrow> nat" where
  "relative_start start len =
     (if start < 0 then nat (max (int len + start) 0) else nat (min start (int len)))"

definition splice_delete1 :: "int \<Rightarrow> 'a option list \<Rightarrow> 'a option list" where
  "splice_delete1 start xs =
     (let k = relative_start start (length xs) in take k xs @ drop (k + 1) xs)"

definition splice_insert :: "int \<Rightarrow> 'a option \<Rightarrow> 'a option list \<Rightarrow> 'a option list" where
  "splice_insert start item xs =
     (let k = relative_start start (length xs) in take k xs @ item # drop k xs)"

text \<open>
  The drop handler of a file item from the adjustment of \<open>toIndex\<close> on; \<open>fromIndex\<close> is
  the parsed drag data (\<open>None\<close> for \<open>NaN\<close>).
\<close>

definition reorder :: "int option \<Rightarrow> int \<Rightarrow> 'a option list \<Rightarrow> 'a option list" where
  "reorder fromIndex toIndex selectedFiles =
     (case fromIndex of
        None \<Rightarrow> selectedFiles
      | Some from \<Rightarrow>
          (let toIndex' = (if from < toIndex then toIndex - 1 else toIndex) in
           if from \<noteq> toIndex'
           then (let itemToMove = array_get selectedFiles from
                 in splice_insert toIndex' itemToMove (splice_delete1 from selectedFiles))
           else selectedFiles))"

text \<open>The whole handler: \<open>index\<close> is the item dropped on, \<open>lowerHalf\<close> is \<^verbatim>\<open>e.clientY >= midY\<close>.\<close>

definition file_drop :: "int option \<Rightarrow> int \<Rightarrow> bool \<Rightarrow> 'a option list \<Rightarrow> 'a option list" where
  "file_drop fromIndex index lowerHalf selectedFiles =
     reorder fromIndex (if lowerHalf then index + 1 else index) selectedFiles"

section \<open>Notions of the specification\<close>

text \<open>
  The maximal consecutive runs of a sequence, following the specification's words: a run
  goes on while each element equals the previous plus one.
\<close>

fun consecutive_runs :: "int list \<Rightarrow> int list list" where
  "consecutive_runs [] = []"
| "consecutive_runs [x] = [[x]]"
| "consecutive_runs (x # y # ys) =
     (if y = x + 1
      then (case consecutive_runs (y # ys) of
              [] \<Rightarrow> [[x]]
            | r # rs \<Rightarrow> (x # r) # rs)
      else [x] # consecutive_runs (y # ys))"

fun is_run :: "int list \<Rightarrow> bool" where
  "is_run (x # y # ys) \<longleftrightarrow> y = x + 1 \<and> is_run (y # ys)"
| "is_run _ \<longleftrightarrow> True"

fun runs_maximal :: "int list list \<Rightarrow> bool" where
  "runs_maximal (r # s # rs) \<longleftrightarrow> hd s \<noteq> last r + 1 \<and> runs_maximal (s # rs)"
| "runs_maximal _ \<longleftrightarrow> True"

text \<open>\<open>"start"\<close> for a run of length 1, \<open>"start-end"\<close> for a longer one.\<close>

definition run_text :: "int list \<Rightarrow> string" where
  "run_text r =
     (if length r = 1 then numToString (hd r)
      else numToString (hd r) @ ''-'' @ numToString (last r))"

text \<open>
  The pages of \<open>xs\<close> at their first occurrences: position \<open>i\<close> stays when its page occurs at
  no earlier position.
\<close>

definition first_occurrences :: "int list \<Rightarrow> int list" where
  "first_occurrences xs =
     map (\<lambda>i. xs ! i) (filter (\<lambda>i. xs ! i \<notin> set (take i xs)) [0 ..< length xs])"

text \<open>
  The validation of one part: a range needs both sides to parse, \<open>start \<ge> 1\<close> and
  \<open>start \<le> end\<close>; a single page needs to parse and to lie in \<open>1..totalPages\<close>.
\<close>

definition part_accepted :: "int \<Rightarrow> string \<Rightarrow> bool" where
  "part_accepted totalPages part =
     (let trimmedPart = trim part in
      if str_includes trimmedPart CHR ''-'' then
        (case range_bounds trimmedPart of
           (Some start, Some end') \<Rightarrow> start \<ge> 1 \<and> start \<le> end'
         | _ \<Rightarrow> False)
      else
        (case parseInt trimmedPart of
           Some pageNum \<Rightarrow> pageNum \<ge> 1 \<and> pageNum \<le> totalPages
         | None \<Rightarrow> False))"

section \<open>Facts about the parser\<close>

text \<open>The recursive equations of the loops are unfolded by hand, one step at a time.\<close>

declare range_loop.simps [simp del] range_loop_part000.simps [simp del] format_loop.simps [simp del] show_nat.simps [simp del]

lemma range_loop_upto: "range_loop i e t acc = acc @ [i .. min e t]"
proof (induction i e t acc rule: range_loop.induct)
  case (1 i e t acc)
  show ?case
  proof (cases "i \<le> min e t")
    case True
    then have "[i .. min e t] = i # [i + 1 .. min e t]"
      by (simp add: upto_rec1)
    moreover have "range_loop i e t acc = range_loop (i + 1) e t (acc @ [i])"
      using True by (subst range_loop.simps) (simp only: if_True)
    ultimately show ?thesis using 1 [OF True] by simp
  next
    case False
    then have "min e t < i" unfolding not_le .
    then have "[i .. min e t] = []" by simp
    moreover have "range_loop i e t acc = acc"
      using False by (subst range_loop.simps) (simp only: if_False)
    ultimately show ?thesis by simp
  qed
qed

lemma set_foldl_Set_add: "set (foldl Set_add acc xs) = set acc \<union> set xs"
  by (induction xs arbitrary: acc) (auto simp: Set_add_def Set_has_def)

lemma distinct_foldl_Set_add: "distinct acc \<Longrightarrow> distinct (foldl Set_add acc xs)"
  by (induction xs arbitrary: acc) (auto simp: Set_add_def Set_has_def)

lemma new_Set_snoc: "new_Set (xs @ [x]) = Set_add (new_Set xs) x"
  by (simp add: new_Set_def)

lemma set_new_Set: "set (new_Set xs) = set xs"
  by (simp add: new_Set_def set_foldl_Set_add)

lemma distinct_new_Set: "distinct (new_Set xs)"
  by (simp add: new_Set_def distinct_foldl_Set_add)

lemma first_occurrences_snoc:
  "first_occurrences (xs @ [x]) =
     (if x \<in> set xs then first_occurrences xs else first_occurrences xs @ [x])"
proof -
  have f: "filter (\<lambda>i. (xs @ [x]) ! i \<notin> set (take i (xs @ [x]))) [0 ..< length xs]
         = filter (\<lambda>i. xs ! i \<notin> set (take i xs)) [0 ..< length xs]"
    by (rule filter_cong) (auto simp: nth_append)
  have m: "map (\<lambda>i. (xs @ [x]) ! i) (filter (\<lambda>i. xs ! i \<notin> set (take i xs)) [0 ..< length xs])
         = map (\<lambda>i. xs ! i) (filter (\<lambda>i. xs ! i \<notin> set (take i xs)) [0 ..< length xs])"
    by (rule map_cong) (auto simp: nth_append)
  show ?thesis
    unfolding first_occurrences_def using f m by simp
qed

lemma new_Set_first_occurrences: "new_Set xs = first_occurrences xs"
proof (induction xs rule: rev_induct)
  case Nil
  show ?case by (simp add: new_Set_def first_occurrences_def)
next
  case (snoc x xs)
  have "x \<in> set (new_Set xs) \<longleftrightarrow> x \<in> set xs"
    by (simp add: set_new_Set)
  with snoc show ?case
    by (simp add: new_Set_snoc first_occurrences_snoc Set_add_def Set_has_def)
qed

lemma new_Set_distinct_id: "distinct xs \<Longrightarrow> new_Set xs = xs"
proof (induction xs rule: rev_induct)
  case Nil
  show ?case by (simp add: new_Set_def)
next
  case (snoc x xs)
  then show ?case
    by (simp add: new_Set_snoc Set_add_def Set_has_def)
qed

lemma parse_part_acc: "parse_part tp acc part = acc @ parse_part tp [] part"
  by (simp add: parse_part_def Let_def range_loop_upto split: option.splits prod.splits)


lemma foldl_parse_part:
  "foldl (parse_part tp) acc parts = acc @ concat (map (parse_part tp []) parts)"
proof (induction parts arbitrary: acc)
  case Nil
  show ?case by simp
next
  case (Cons p ps)
  show ?case
    by (simp add: Cons.IH [of "parse_part tp acc p"]) (simp add: parse_part_acc [of tp acc p])
qed

lemma split_from_sep:
  "split_from sep cur (a @ sep # b) = split_from sep cur a @ split_from sep [] b"
  by (induction a arbitrary: cur) auto

lemma split_from_no_sep: "sep \<notin> set t \<Longrightarrow> split_from sep cur t = [cur @ t]"
  by (induction t arbitrary: cur) auto

lemma split_sep: "split sep (a @ sep # b) = split sep a @ split sep b"
  by (simp add: split_def split_from_sep)

lemma split_no_sep: "sep \<notin> set t \<Longrightarrow> split sep t = [t]"
  by (simp add: split_def split_from_no_sep)

lemma pushed_pages_concat:
  "pushed_pages text tp = concat (map (parse_part tp []) (split CHR '','' text))"
  by (simp add: pushed_pages_def foldl_parse_part)

lemma pushed_pages_comma:
  "pushed_pages (a @ CHR '','' # b) tp = pushed_pages a tp @ pushed_pages b tp"
  by (simp add: pushed_pages_concat split_sep)

lemma pushed_pages_token:
  "CHR '','' \<notin> set t \<Longrightarrow> pushed_pages t tp = parse_part tp [] t"
  by (simp add: pushed_pages_concat split_no_sep)

lemma parse_part_bounds:
  assumes "p \<in> set (parse_part tp [] part)"
  shows "1 \<le> p \<and> p \<le> tp"
proof (cases "str_includes (trim part) CHR ''-''")
  case True
  show ?thesis
  proof (cases "range_bounds (trim part)")
    case (Pair a b)
    with assms True show ?thesis
      by (cases a; cases b) (auto simp: parse_part_def range_loop_upto split: if_splits)
  qed
next
  case False
  with assms show ?thesis
    by (auto simp: parse_part_def split: option.splits if_splits)
qed

lemma pushed_pages_bounds: "p \<in> set (pushed_pages text tp) \<Longrightarrow> 1 \<le> p \<and> p \<le> tp"
  by (auto simp: pushed_pages_concat dest: parse_part_bounds)

lemma range_loop_part000_eq:
  "range_loop_part000 i e t s = foldl Set_add s [i .. min e t]"
proof (induction i e t s rule: range_loop_part000.induct)
  case (1 i e t s)
  show ?case
  proof (cases "i \<le> e \<and> i \<le> t")
    case True
    then have "[i .. min e t] = i # [i + 1 .. min e t]"
      by (simp add: upto_rec1)
    moreover have "range_loop_part000 i e t s = range_loop_part000 (i + 1) e t (Set_add s i)"
      using True by (subst range_loop_part000.simps) simp
    ultimately show ?thesis using 1 [OF True] by simp
  next
    case False
    then have "min e t < i" by (auto simp: min_def)
    then have "[i .. min e t] = []" by simp
    moreover have "range_loop_part000 i e t s = s"
      using False by (subst range_loop_part000.simps) (simp only: if_False)
    ultimately show ?thesis by simp
  qed
qed

lemma parse_part_part000_eq:
  "parse_part_part000 tp s part = foldl Set_add s (parse_part tp [] part)"
  by (simp add: parse_part_part000_def parse_part_def Let_def range_loop_upto
      range_loop_part000_eq split: option.splits prod.splits)

lemma foldl_parse_part_part000:
  "foldl (parse_part_part000 tp) s parts =
     foldl Set_add s (concat (map (parse_part tp []) parts))"
  by (induction parts arbitrary: s) (simp_all add: parse_part_part000_eq)

lemma part000_sort: "parsePageRanges_part000 text tp = sort (parsePageRanges text tp)"
  by (simp add: parsePageRanges_part000_def parsePageRanges_def new_Set_def
      foldl_parse_part_part000 pushed_pages_concat)

lemma parse_part_rejected:
  "\<not> part_accepted tp part \<Longrightarrow> parse_part tp pageNumbers part = pageNumbers"
  by (auto simp: part_accepted_def parse_part_def Let_def split: option.splits prod.splits if_splits)

lemma parse_part_range:
  assumes "str_includes (trim part) CHR ''-''"
    and "range_bounds (trim part) = (Some start, Some end')"
  shows "parse_part tp pageNumbers part =
           (if 1 \<le> start \<and> start \<le> end' then pageNumbers @ [start .. min end' tp]
            else pageNumbers)"
  using assms by (simp add: parse_part_def range_loop_upto)

lemma parsePageRanges_drop_part:
  assumes "CHR '','' \<notin> set part" and "parse_part tp [] part = []"
  shows "parsePageRanges (a @ CHR '','' # part @ CHR '','' # b) tp = parsePageRanges (a @ CHR '','' # b) tp"
    and "parsePageRanges (part @ CHR '','' # b) tp = parsePageRanges b tp"
    and "parsePageRanges (a @ CHR '','' # part) tp = parsePageRanges a tp"
    and "parsePageRanges part tp = []"
  using assms
  by (simp_all add: parsePageRanges_def pushed_pages_comma pushed_pages_token new_Set_def)

section \<open>Claims about the parser\<close>

text \<open>
  C1. For every input text and every \<open>totalPages\<close>, \<open>parsePageRanges\<close> returns the distinct
  valid page numbers in first-occurrence order: the result is the array of pushed pages
  with exactly the first occurrence of every page kept, it has no duplicate, it holds the
  same pages as the pushed array, and every page lies in \<open>1..totalPages\<close>. In particular
  \<open>"5-7,1,3"\<close> with 10 pages gives \<open>[5,6,7,1,3]\<close> and \<open>"1,1,2"\<close> gives \<open>[1,2]\<close>.
\<close>

theorem parsePageRanges_first_occurrence_order:
  "parsePageRanges text tp = first_occurrences (pushed_pages text tp)
   \<and> distinct (parsePageRanges text tp)
   \<and> set (parsePageRanges text tp) = set (pushed_pages text tp)
   \<and> set (parsePageRanges text tp) \<subseteq> {1 .. tp}
   \<and> parsePageRanges ''5-7,1,3'' 10 = [5, 6, 7, 1, 3]
   \<and> parsePageRanges ''1,1,2'' 10 = [1, 2]"
proof -
  have "parsePageRanges text tp = first_occurrences (pushed_pages text tp)"
    by (simp add: parsePageRanges_def new_Set_first_occurrences)
  moreover have "distinct (parsePageRanges text tp)"
    by (simp add: parsePageRanges_def distinct_new_Set)
  moreover have s: "set (parsePageRanges text tp) = set (pushed_pages text tp)"
    by (simp add: parsePageRanges_def set_new_Set)
  moreover have "set (parsePageRanges text tp) \<subseteq> {1 .. tp}"
    unfolding s using pushed_pages_bounds [of _ "text" tp] by auto
  moreover have "parsePageRanges ''5-7,1,3'' 10 = [5, 6, 7, 1, 3]"
    by code_simp
  moreover have "parsePageRanges ''1,1,2'' 10 = [1, 2]"
    by code_simp
  ultimately show ?thesis by blast
qed

text \<open>
  C4. A range part whose two sides parse as integers with \<open>start \<ge> 1\<close> and
  \<open>start \<le> end\<close> pushes exactly the pages \<open>start\<close> to \<open>min end totalPages\<close>, whatever was
  pushed before; alone it is the whole result, and between other parts it stands between
  their pages. Pages beyond \<open>totalPages\<close> are left out and nothing else changes. In
  particular \<open>"8-12"\<close> with 10 pages gives \<open>[8,9,10]\<close>.
\<close>

theorem range_token_expansion:
  assumes "CHR '','' \<notin> set part"
    and "str_includes (trim part) CHR ''-''"
    and "range_bounds (trim part) = (Some start, Some end')"
    and "1 \<le> start" and "start \<le> end'"
  shows "parse_part tp pageNumbers part = pageNumbers @ [start .. min end' tp]
   \<and> parsePageRanges part tp = [start .. min end' tp]
   \<and> pushed_pages (a @ CHR '','' # part @ CHR '','' # b) tp =
         pushed_pages a tp @ [start .. min end' tp] @ pushed_pages b tp
   \<and> parsePageRanges ''8-12'' 10 = [8, 9, 10]"
proof -
  have p: "parse_part tp acc part = acc @ [start .. min end' tp]" for acc
    using assms by (simp add: parse_part_range)
  have "parsePageRanges part tp = [start .. min end' tp]"
    using assms(1) p [of "[]"]
    by (simp add: parsePageRanges_def pushed_pages_token new_Set_distinct_id)
  moreover have "pushed_pages (a @ CHR '','' # part @ CHR '','' # b) tp =
         pushed_pages a tp @ [start .. min end' tp] @ pushed_pages b tp"
    using assms(1) p [of "[]"] by (simp add: pushed_pages_comma pushed_pages_token)
  moreover have "parsePageRanges ''8-12'' 10 = [8, 9, 10]"
    by code_simp
  ultimately show ?thesis using p by blast
qed

theorem range_token_expansion_witness:
  "parse_part 10 [] ''8-12'' = [] @ [8 .. min 12 10]
   \<and> parsePageRanges ''8-12'' 10 = [8 .. min 12 10]
   \<and> pushed_pages (''1'' @ CHR '','' # ''8-12'' @ CHR '','' # ''2'') 10 =
         pushed_pages ''1'' 10 @ [8 .. min 12 10] @ pushed_pages ''2'' 10
   \<and> parsePageRanges ''8-12'' 10 = [8, 9, 10]"
proof -
  have 1: "CHR '','' \<notin> set ''8-12''" by simp
  have 2: "str_includes (trim ''8-12'') CHR ''-''" by code_simp
  have 3: "range_bounds (trim ''8-12'') = (Some 8, Some 12)" by code_simp
  show ?thesis
    using range_token_expansion [OF 1 2 3, of 10 "[]" "''1''" "''2''"] by simp
qed

text \<open>
  C5. A range part whose start exceeds its end pushes no page, and the result of the
  other parts is the same with or without it. In particular \<open>"3-1"\<close> with 10 pages gives
  the empty list.
\<close>

theorem inverted_range_dropped:
  assumes "CHR '','' \<notin> set part"
    and "str_includes (trim part) CHR ''-''"
    and "range_bounds (trim part) = (Some start, Some end')"
    and "end' < start"
  shows "parse_part tp pageNumbers part = pageNumbers
   \<and> parsePageRanges part tp = []
   \<and> parsePageRanges (a @ CHR '','' # part @ CHR '','' # b) tp = parsePageRanges (a @ CHR '','' # b) tp
   \<and> parsePageRanges (part @ CHR '','' # b) tp = parsePageRanges b tp
   \<and> parsePageRanges (a @ CHR '','' # part) tp = parsePageRanges a tp
   \<and> parsePageRanges ''3-1'' 10 = []"
proof -
  have p: "parse_part tp acc part = acc" for acc
    using assms by (simp add: parse_part_range)
  have "parsePageRanges ''3-1'' 10 = []"
    by code_simp
  then show ?thesis
    using p parsePageRanges_drop_part [OF assms(1) p [of "[]"]] by blast
qed

theorem inverted_range_dropped_witness:
  "parse_part 10 [4] ''3-1'' = [4]
   \<and> parsePageRanges ''3-1'' 10 = []
   \<and> parsePageRanges (''5-7'' @ CHR '','' # ''3-1'' @ CHR '','' # ''2'') 10 = parsePageRanges (''5-7'' @ CHR '','' # ''2'') 10
   \<and> parsePageRanges (''3-1'' @ CHR '','' # ''2'') 10 = parsePageRanges ''2'' 10
   \<and> parsePageRanges (''5-7'' @ CHR '','' # ''3-1'') 10 = parsePageRanges ''5-7'' 10"
proof -
  have 1: "CHR '','' \<notin> set ''3-1''" by simp
  have 2: "str_includes (trim ''3-1'') CHR ''-''" by code_simp
  have 3: "range_bounds (trim ''3-1'') = (Some 3, Some 1)" by code_simp
  have 4: "(1::int) < 3" by simp
  show ?thesis
    using inverted_range_dropped [OF 1 2 3 4, of 10 "[4]" "''5-7''" "''2''"] by simp
qed

text \<open>
  C10. For every input text and every \<open>totalPages\<close> the parser of \<^verbatim>\<open>src/js/app.js\<close> and
  the parser of \<^verbatim>\<open>src/unnamed/part_000\<close> return the same set of pages; the second list
  is the first one sorted.
\<close>

theorem parser_variants_same_pages:
  "set (parsePageRanges text tp) = set (parsePageRanges_part000 text tp)
   \<and> parsePageRanges_part000 text tp = sort (parsePageRanges text tp)"
  by (simp add: part000_sort)

section \<open>Facts about the formatter\<close>

lemma is_run_snoc: "cur \<noteq> [] \<Longrightarrow> is_run cur \<Longrightarrow> p = last cur + 1 \<Longrightarrow> is_run (cur @ [p])"
  by (induction cur rule: is_run.induct) auto

lemma is_run_last: "cur \<noteq> [] \<Longrightarrow> is_run cur \<Longrightarrow> last cur = hd cur + int (length cur) - 1"
  by (induction cur rule: is_run.induct) auto

lemma is_run_upto: "cur \<noteq> [] \<Longrightarrow> is_run cur \<Longrightarrow> cur = [hd cur .. last cur]"
proof (induction cur rule: is_run.induct)
  case (1 x y ys)
  from "1.prems" have y: "y = x + 1" and r: "is_run (y # ys)" by auto
  define l where "l = last (y # ys)"
  have ne: "y # ys \<noteq> []" by simp
  have "y # ys = [hd (y # ys) .. last (y # ys)]"
    by (rule "1.IH" [OF ne r])
  then have a: "y # ys = [y .. l]"
    unfolding l_def by (simp only: list.sel)
  have "l = y + int (length (y # ys)) - 1"
    using is_run_last [OF ne r] unfolding l_def by (simp only: list.sel)
  then have le: "x \<le> l" using y by simp
  have hl: "hd (x # y # ys) = x" "last (x # y # ys) = l"
    by (simp_all add: l_def)
  have "x # y # ys = x # [y .. l]"
    by (simp only: a [symmetric])
  also have "\<dots> = [x .. l]"
    using le y by (simp add: upto_rec1)
  finally show ?case unfolding hl .
qed simp_all

lemma range_text_run: "cur \<noteq> [] \<Longrightarrow> is_run cur \<Longrightarrow> range_text (hd cur) (last cur) = run_text cur"
  using is_run_last [of cur]
  by (cases cur) (auto simp: range_text_def run_text_def)

lemma consecutive_runs_single: "cur \<noteq> [] \<Longrightarrow> is_run cur \<Longrightarrow> consecutive_runs cur = [cur]"
  by (induction cur rule: is_run.induct) auto

lemma consecutive_runs_break:
  "cur \<noteq> [] \<Longrightarrow> is_run cur \<Longrightarrow> p \<noteq> last cur + 1 \<Longrightarrow>
     consecutive_runs (cur @ p # rest) = cur # consecutive_runs (p # rest)"
  by (induction cur rule: is_run.induct) auto

lemma format_loop_runs:
  assumes "i \<le> length pages" and "cur \<noteq> []" and "is_run cur"
  shows "(case format_loop pages i (hd cur) (last cur) ranges of
            (s, e, r) \<Rightarrow> r @ [range_text s e]) =
         ranges @ map run_text (consecutive_runs (cur @ drop i pages))"
  using assms
proof (induction k \<equiv> "length pages - i" arbitrary: i cur ranges)
  case 0
  then have "format_loop pages i (hd cur) (last cur) ranges = (hd cur, last cur, ranges)"
    by (subst format_loop.simps) simp
  with 0 show ?case
    by (simp add: consecutive_runs_single range_text_run)
next
  case (Suc k)
  then have lt: "i < length pages" by simp
  define p where "p = pages ! i"
  have dr: "drop i pages = p # drop (Suc i) pages"
    using lt by (simp add: p_def Cons_nth_drop_Suc)
  show ?case
  proof (cases "p = last cur + 1")
    case True
    have step: "format_loop pages i (hd cur) (last cur) ranges =
                format_loop pages (Suc i) (hd cur) p ranges"
      using lt True by (subst format_loop.simps) (simp add: p_def)
    have "(case format_loop pages (Suc i) (hd (cur @ [p])) (last (cur @ [p])) ranges of
            (s, e, r) \<Rightarrow> r @ [range_text s e]) =
          ranges @ map run_text (consecutive_runs ((cur @ [p]) @ drop (Suc i) pages))"
      using Suc.prems Suc.hyps(2) lt True
      by (intro Suc.hyps(1)) (simp_all add: is_run_snoc)
    then show ?thesis
      using Suc.prems(2) by (simp add: step dr)
  next
    case False
    have step: "format_loop pages i (hd cur) (last cur) ranges =
                format_loop pages (Suc i) p p (ranges @ [range_text (hd cur) (last cur)])"
      using lt False by (subst format_loop.simps) (simp add: p_def)
    have "(case format_loop pages (Suc i) (hd [p]) (last [p])
                  (ranges @ [range_text (hd cur) (last cur)]) of
            (s, e, r) \<Rightarrow> r @ [range_text s e]) =
          (ranges @ [range_text (hd cur) (last cur)]) @
            map run_text (consecutive_runs ([p] @ drop (Suc i) pages))"
      using Suc.hyps(2) lt
      by (intro Suc.hyps(1)) simp_all
    then show ?thesis
      using Suc.prems False
      by (simp add: step dr consecutive_runs_break range_text_run)
  qed
qed

lemma formatPageRanges_runs:
  "formatPageRanges pages = join '','' (map run_text (consecutive_runs pages))"
proof (cases pages)
  case Nil
  then show ?thesis by (simp add: formatPageRanges_def)
next
  case (Cons x xs)
  have "(case format_loop pages 1 (hd [x]) (last [x]) [] of
            (s, e, r) \<Rightarrow> r @ [range_text s e]) =
         [] @ map run_text (consecutive_runs ([x] @ drop 1 pages))"
    using Cons by (intro format_loop_runs) simp_all
  then show ?thesis
    using Cons by (simp add: formatPageRanges_def split: prod.splits)
qed

lemma consecutive_runs_nonempty: "pages \<noteq> [] \<Longrightarrow> consecutive_runs pages \<noteq> []"
  by (induction pages rule: consecutive_runs.induct) (auto split: list.splits)

lemma concat_consecutive_runs: "concat (consecutive_runs pages) = pages"
  by (induction pages rule: consecutive_runs.induct) (auto split: list.splits)

lemma consecutive_runs_hd:
  "consecutive_runs (x # xs) = r # rs \<Longrightarrow> r \<noteq> [] \<and> hd r = x"
  by (induction "x # xs" arbitrary: x xs r rs rule: consecutive_runs.induct)
    (auto split: list.splits if_splits)

lemma consecutive_runs_are_runs:
  "list_all (\<lambda>r. r \<noteq> [] \<and> is_run r) (consecutive_runs pages)"
proof (induction pages rule: consecutive_runs.induct)
  case (3 x y ys)
  show ?case
  proof (cases "consecutive_runs (y # ys)")
    case Nil
    then show ?thesis using consecutive_runs_nonempty [of "y # ys"] by simp
  next
    case (Cons r rs)
    with consecutive_runs_hd [OF Cons] obtain r' where "r = y # r'"
      by (cases r) auto
    with 3 Cons show ?thesis by auto
  qed
qed simp_all

lemma consecutive_runs_maximal: "runs_maximal (consecutive_runs pages)"
proof (induction pages rule: consecutive_runs.induct)
  case (3 x y ys)
  show ?case
  proof (cases "consecutive_runs (y # ys)")
    case Nil
    then show ?thesis using consecutive_runs_nonempty [of "y # ys"] by simp
  next
    case (Cons r rs)
    with consecutive_runs_hd [OF Cons] obtain r' where r: "r = y # r'"
      by (cases r) auto
    show ?thesis
    proof (cases rs)
      case Nil
      with 3 Cons r show ?thesis by auto
    next
      case (Cons s ss)
      with 3 \<open>consecutive_runs (y # ys) = r # rs\<close> r show ?thesis by auto
    qed
  qed
qed simp_all

text \<open>
  C3. \<open>formatPageRanges\<close> groups the maximal consecutive runs of its input: the runs are
  not empty, in each of them every element is the previous plus one, they make up the
  input when put one after the other, and no run could go on into the next one. Each run
  is written \<open>"start"\<close> when it has one element and \<open>"start-end"\<close> otherwise, and the texts
  are joined with commas. This holds for every sequence of integers, so for the ascending
  duplicate-free ones. In particular \<open>[1,2,3,5,7,8,9]\<close> gives \<open>"1-3,5,7-9"\<close>, the empty
  sequence gives the empty string and \<open>[4]\<close> gives \<open>"4"\<close>.
\<close>

theorem formatPageRanges_groups_runs:
  "formatPageRanges pages = join '','' (map run_text (consecutive_runs pages))
   \<and> concat (consecutive_runs pages) = pages
   \<and> list_all (\<lambda>r. r \<noteq> [] \<and> is_run r) (consecutive_runs pages)
   \<and> runs_maximal (consecutive_runs pages)
   \<and> formatPageRanges [1, 2, 3, 5, 7, 8, 9] = ''1-3,5,7-9''
   \<and> formatPageRanges [] = ''''
   \<and> formatPageRanges [4] = ''4''"
proof -
  have "formatPageRanges [1, 2, 3, 5, 7, 8, 9] = ''1-3,5,7-9''" by code_simp
  moreover have "formatPageRanges [] = ''''" by code_simp
  moreover have "formatPageRanges [4] = ''4''" by code_simp
  ultimately show ?thesis
    using formatPageRanges_runs [of pages] concat_consecutive_runs [of pages]
      consecutive_runs_are_runs [of pages] consecutive_runs_maximal [of pages]
    by blast
qed

section \<open>Formatting, then parsing\<close>

lemma digit_cases: "d < 10 \<Longrightarrow> d \<in> {0, 1, 2, 3, 4, 5, 6, 7, 8, 9::nat}"
  by auto

lemma digitVal_digitChar: "d < 10 \<Longrightarrow> digitVal (digitChar d) = int d"
  using digit_cases [of d] by (auto simp: digitVal_def digitChar_def)

lemma isDigit_digitChar: "isDigit (digitChar d)"
proof -
  have "d mod 10 < length ''0123456789''" by simp
  then have "''0123456789'' ! (d mod 10) \<in> set ''0123456789''"
    by (rule nth_mem)
  then show ?thesis
    unfolding isDigit_def digitChar_def .
qed

lemma show_nat_digits: "\<forall>c \<in> set (show_nat n). isDigit c"
proof (induction n rule: show_nat.induct)
  case (1 n)
  show ?case
  proof (cases "n < 10")
    case True
    then show ?thesis by (subst show_nat.simps) (simp add: isDigit_digitChar)
  next
    case False
    with 1 show ?thesis by (subst show_nat.simps) (simp add: isDigit_digitChar)
  qed
qed

lemma show_nat_nonempty: "show_nat n \<noteq> []"
  by (subst show_nat.simps) simp

lemma show_nat_value: "foldl (\<lambda>a c. 10 * a + digitVal c) 0 (show_nat n) = int n"
proof (induction n rule: show_nat.induct)
  case (1 n)
  show ?case
  proof (cases "n < 10")
    case True
    then show ?thesis by (subst show_nat.simps) (simp add: digitVal_digitChar)
  next
    case False
    have "foldl (\<lambda>a c. 10 * a + digitVal c) 0 (show_nat n) =
          10 * int (n div 10) + int (n mod 10)"
      using False 1 by (subst show_nat.simps) (simp add: digitVal_digitChar)
    then show ?thesis by (simp add: zdiv_int zmod_int)
  qed
qed

lemma isDigit_not_special:
  "isDigit c \<Longrightarrow> \<not> isWhiteSpace c \<and> c \<noteq> CHR ''-'' \<and> c \<noteq> CHR ''+'' \<and> c \<noteq> CHR '',''"
  by (auto simp: isDigit_def isWhiteSpace_def)

lemma trim_id: "s \<noteq> [] \<Longrightarrow> \<not> isWhiteSpace (hd s) \<Longrightarrow> \<not> isWhiteSpace (last s) \<Longrightarrow> trim s = s"
proof -
  assume a: "s \<noteq> []" "\<not> isWhiteSpace (hd s)" "\<not> isWhiteSpace (last s)"
  then have "dropWhile isWhiteSpace s = s" by (cases s) simp_all
  moreover have "dropWhile isWhiteSpace (rev s) = rev s"
    using a by (cases "rev s") (simp_all add: last_rev [symmetric] hd_rev)
  ultimately show ?thesis by (simp add: trim_def)
qed

lemma parseInt_digits:
  assumes "s \<noteq> []" and "\<forall>c \<in> set s. isDigit c"
  shows "parseInt s = Some (foldl (\<lambda>a c. 10 * a + digitVal c) 0 s)"
proof -
  obtain c cs where s: "s = c # cs" using assms(1) by (cases s) auto
  have c: "isDigit c" using assms(2) s by simp
  have dw: "dropWhile isWhiteSpace s = s"
    using s c isDigit_not_special [of c] by simp
  have tw: "takeWhile isDigit s = s"
    using assms(2) by (simp add: takeWhile_eq_all_conv)
  have hs: "hd s \<noteq> CHR ''-''" "hd s \<noteq> CHR ''+''"
    using s c isDigit_not_special [of c] by simp_all
  show ?thesis
    by (simp add: parseInt_def Let_def dw tw hs assms(1))
qed

lemma parseInt_show_nat: "parseInt (show_nat n) = Some (int n)"
  using parseInt_digits [OF show_nat_nonempty show_nat_digits, of n]
  by (simp add: show_nat_value)

lemma trim_show_nat: "trim (show_nat n) = show_nat n"
proof (rule trim_id)
  show "show_nat n \<noteq> []" by (rule show_nat_nonempty)
  have "hd (show_nat n) \<in> set (show_nat n)" "last (show_nat n) \<in> set (show_nat n)"
    using show_nat_nonempty [of n] by simp_all
  then have "isDigit (hd (show_nat n))" "isDigit (last (show_nat n))"
    using show_nat_digits [of n] by blast+
  then show "\<not> isWhiteSpace (hd (show_nat n))" "\<not> isWhiteSpace (last (show_nat n))"
    using isDigit_not_special by blast+
qed

lemma show_nat_no_special:
  "CHR ''-'' \<notin> set (show_nat n)" "CHR '','' \<notin> set (show_nat n)"
  using show_nat_digits [of n] isDigit_not_special by blast+

lemma trim_range_text:
  "trim (show_nat a @ CHR ''-'' # show_nat b) = show_nat a @ CHR ''-'' # show_nat b"
proof (rule trim_id)
  show "show_nat a @ CHR ''-'' # show_nat b \<noteq> []" by simp
  have "hd (show_nat a) \<in> set (show_nat a)" "last (show_nat b) \<in> set (show_nat b)"
    using show_nat_nonempty by simp_all
  then have "isDigit (hd (show_nat a))" "isDigit (last (show_nat b))"
    using show_nat_digits by blast+
  then show "\<not> isWhiteSpace (hd (show_nat a @ CHR ''-'' # show_nat b))"
    "\<not> isWhiteSpace (last (show_nat a @ CHR ''-'' # show_nat b))"
    using isDigit_not_special show_nat_nonempty by (simp_all add: hd_append)
qed

lemma parse_part_single_text:
  assumes "1 \<le> a" and "a \<le> tp"
  shows "parse_part tp [] (numToString a) = [a]"
  using assms
  by (simp add: parse_part_def numToString_def trim_show_nat str_includes_def
      show_nat_no_special parseInt_show_nat)

lemma parse_part_range_text:
  assumes "1 \<le> a" and "a \<le> b" and "b \<le> tp"
  shows "parse_part tp [] (numToString a @ CHR ''-'' # numToString b) = [a .. b]"
proof -
  have "range_bounds (show_nat (nat a) @ CHR ''-'' # show_nat (nat b)) = (Some a, Some b)"
    using assms
    by (simp add: range_bounds_def split_sep split_no_sep show_nat_no_special
        trim_show_nat parseInt_show_nat)
  then show ?thesis
    using assms
    by (simp add: parse_part_def numToString_def trim_range_text str_includes_def
        range_loop_upto)
qed

lemma parse_part_run_text:
  assumes "r \<noteq> []" and "is_run r" and "1 \<le> hd r" and "last r \<le> tp"
  shows "parse_part tp [] (run_text r) = r"
proof (cases "length r = 1")
  case True
  then obtain x where r: "r = [x]" by (cases r) auto
  with assms show ?thesis by (simp add: run_text_def parse_part_single_text)
next
  case False
  have l: "last r = hd r + int (length r) - 1"
    by (rule is_run_last [OF assms(1,2)])
  then have "hd r \<le> last r" using assms(1) by (cases r) auto
  then have "parse_part tp [] (run_text r) = [hd r .. last r]"
    using False assms by (simp add: run_text_def parse_part_range_text)
  then show ?thesis using is_run_upto [OF assms(1,2)] by simp
qed

lemma run_text_no_comma:
  assumes "r \<noteq> []" and "0 \<le> hd r" and "0 \<le> last r"
  shows "CHR '','' \<notin> set (run_text r)"
  using assms by (simp add: run_text_def numToString_def show_nat_no_special)

lemma split_join:
  assumes "toks \<noteq> []" and "\<forall>t \<in> set toks. CHR '','' \<notin> set t"
  shows "split CHR '','' (join '','' toks) = toks"
  using assms
proof (induction toks)
  case Nil
  then show ?case by simp
next
  case (Cons x xs)
  show ?case
  proof (cases xs)
    case Nil
    with Cons.prems show ?thesis by (simp add: split_no_sep)
  next
    case (Cons y ys)
    with Cons.prems Cons.IH show ?thesis by (simp add: split_sep split_no_sep)
  qed
qed

lemma roundtrip_distinct:
  assumes "S \<noteq> []" and "distinct S" and "\<forall>p \<in> set S. 1 \<le> p \<and> p \<le> tp"
  shows "parsePageRanges (formatPageRanges S) tp = S"
proof -
  let ?runs = "consecutive_runs S"
  have runs: "\<forall>r \<in> set ?runs. r \<noteq> [] \<and> is_run r"
    using consecutive_runs_are_runs [of S] by (simp add: list_all_iff)
  have sub: "\<forall>r \<in> set ?runs. set r \<subseteq> set S"
  proof
    fix r assume "r \<in> set ?runs"
    then have "set r \<subseteq> set (concat ?runs)" by auto
    then show "set r \<subseteq> set S" by (simp add: concat_consecutive_runs)
  qed
  have bounds: "\<forall>r \<in> set ?runs. 1 \<le> hd r \<and> last r \<le> tp \<and> 0 \<le> last r"
  proof
    fix r assume r: "r \<in> set ?runs"
    then have "r \<noteq> []" using runs by blast
    then have "hd r \<in> set S" "last r \<in> set S"
      using sub r hd_in_set [of r] last_in_set [of r] by blast+
    then show "1 \<le> hd r \<and> last r \<le> tp \<and> 0 \<le> last r" using assms(3) by force
  qed
  have nocomma: "\<forall>t \<in> set (map run_text ?runs). CHR '','' \<notin> set t"
  proof
    fix t assume "t \<in> set (map run_text ?runs)"
    then obtain r where r: "r \<in> set ?runs" and t: "t = run_text r" by auto
    have "r \<noteq> []" "0 \<le> hd r" "0 \<le> last r"
      using runs bounds r by force+
    then show "CHR '','' \<notin> set t"
      unfolding t by (rule run_text_no_comma)
  qed
  have "split CHR '','' (formatPageRanges S) = map run_text ?runs"
    unfolding formatPageRanges_runs
    using consecutive_runs_nonempty [OF assms(1)] nocomma by (intro split_join) simp_all
  then have "pushed_pages (formatPageRanges S) tp = concat (map (parse_part tp [] \<circ> run_text) ?runs)"
    by (simp add: pushed_pages_concat)
  also have "map (parse_part tp [] \<circ> run_text) ?runs = ?runs"
    using runs bounds by (intro map_idI) (simp add: parse_part_run_text)
  finally have "pushed_pages (formatPageRanges S) tp = S"
    by (simp add: concat_consecutive_runs)
  then show ?thesis
    using assms(2) by (simp add: parsePageRanges_def new_Set_distinct_id)
qed

text \<open>
  C2. Round trip: for every non-empty, ascending, duplicate-free sequence \<open>S\<close> of page
  numbers that are all at least 1, parsing the formatted text of \<open>S\<close> with
  \<open>totalPages\<close> the greatest element of \<open>S\<close> gives \<open>S\<close> back.
\<close>

theorem format_parse_roundtrip:
  assumes "S \<noteq> []" and "sorted S" and "distinct S" and "\<forall>p \<in> set S. 1 \<le> p"
  shows "parsePageRanges (formatPageRanges S) (Max (set S)) = S"
  using assms by (intro roundtrip_distinct) simp_all

theorem format_parse_roundtrip_witness:
  "parsePageRanges (formatPageRanges [1, 2, 3, 5, 7, 8, 9]) (Max (set [1, 2, 3, 5, 7, 8, 9]))
     = [1, 2, 3, 5, 7, 8, 9]"
proof -
  have "[1, 2, 3, 5, 7, 8, 9::int] \<noteq> []" "sorted [1, 2, 3, 5, 7, 8, 9::int]"
    "distinct [1, 2, 3, 5, 7, 8, 9::int]" "\<forall>p \<in> set [1, 2, 3, 5, 7, 8, 9::int]. 1 \<le> p"
    by simp_all
  then show ?thesis by (rule format_parse_roundtrip)
qed

section \<open>Totality and rejected parts\<close>

lemma numToString_nonempty: "numToString n \<noteq> []"
  by (simp add: numToString_def show_nat_nonempty)

lemma run_text_nonempty: "run_text r \<noteq> []"
  by (simp add: run_text_def numToString_nonempty)

lemma join_nonempty: "toks \<noteq> [] \<Longrightarrow> hd toks \<noteq> [] \<Longrightarrow> join sep toks \<noteq> []"
  by (induction sep toks rule: join.induct) simp_all

lemma formatPageRanges_empty_iff: "formatPageRanges pages = [] \<longleftrightarrow> pages = []"
proof
  assume e: "formatPageRanges pages = []"
  show "pages = []"
  proof (rule ccontr)
    assume "pages \<noteq> []"
    then have "consecutive_runs pages \<noteq> []" by (rule consecutive_runs_nonempty)
    then have "join '','' (map run_text (consecutive_runs pages)) \<noteq> []"
      by (intro join_nonempty) (simp_all add: hd_map run_text_nonempty)
    with e show False by (simp add: formatPageRanges_runs)
  qed
next
  assume "pages = []"
  then show "formatPageRanges pages = []" by (simp add: formatPageRanges_def)
qed

lemma parsePageRanges_length: "length (parsePageRanges input tp) \<le> nat tp"
proof -
  let ?r = "parsePageRanges input tp"
  have d: "distinct ?r" by (simp add: parsePageRanges_def distinct_new_Set)
  have "set ?r \<subseteq> {1 .. tp}"
    using pushed_pages_bounds [of _ input tp] by (auto simp: parsePageRanges_def set_new_Set)
  then have "card (set ?r) \<le> card {1 .. tp}"
    by (intro card_mono) simp_all
  then show ?thesis using d by (simp add: distinct_card)
qed

text \<open>
  C9. The parser and the formatter return a result for every input: both are total
  functions here, the source has no \<^verbatim>\<open>throw\<close>, and its loops were shown to end. The
  parser's result has at most \<open>totalPages\<close> elements and the formatter's result is empty
  exactly for the empty sequence. \<open>""\<close> and \<open>"abc"\<close> with 10 pages both give the empty
  list. A part that fails its validation pushes nothing, and the result of the other
  parts is the same with or without it.
\<close>

theorem parser_formatter_total:
  "parsePageRanges '''' 10 = []
   \<and> parsePageRanges ''abc'' 10 = []
   \<and> length (parsePageRanges input tp) \<le> nat tp
   \<and> (formatPageRanges pages = [] \<longleftrightarrow> pages = [])
   \<and> (\<not> part_accepted tp part \<longrightarrow> parse_part tp pageNumbers part = pageNumbers)
   \<and> (CHR '','' \<notin> set part \<and> \<not> part_accepted tp part \<longrightarrow>
        parsePageRanges part tp = []
        \<and> parsePageRanges (a @ CHR '','' # part @ CHR '','' # b) tp =
            parsePageRanges (a @ CHR '','' # b) tp
        \<and> parsePageRanges (part @ CHR '','' # b) tp = parsePageRanges b tp
        \<and> parsePageRanges (a @ CHR '','' # part) tp = parsePageRanges a tp)"
proof -
  have "parsePageRanges '''' 10 = []" by code_simp
  moreover have "parsePageRanges ''abc'' 10 = []" by code_simp
  moreover have "CHR '','' \<notin> set part \<and> \<not> part_accepted tp part \<longrightarrow>
        parsePageRanges part tp = []
        \<and> parsePageRanges (a @ CHR '','' # part @ CHR '','' # b) tp =
            parsePageRanges (a @ CHR '','' # b) tp
        \<and> parsePageRanges (part @ CHR '','' # b) tp = parsePageRanges b tp
        \<and> parsePageRanges (a @ CHR '','' # part) tp = parsePageRanges a tp"
    using parsePageRanges_drop_part [of part tp] parse_part_rejected [of tp part "[]"]
    by blast
  ultimately show ?thesis
    using parsePageRanges_length [of input tp] formatPageRanges_empty_iff [of pages]
      parse_part_rejected [of tp part pageNumbers]
    by blast
qed

theorem parser_formatter_total_witness:
  "\<not> part_accepted 10 ''abc'' \<and> CHR '','' \<notin> set ''abc''
   \<and> parse_part 10 [7] ''abc'' = [7]
   \<and> parsePageRanges ''abc'' 10 = []
   \<and> parsePageRanges (''1-2'' @ CHR '','' # ''abc'' @ CHR '','' # ''4'') 10 =
       parsePageRanges (''1-2'' @ CHR '','' # ''4'') 10"
proof -
  have 1: "\<not> part_accepted 10 ''abc''" by code_simp
  have 2: "CHR '','' \<notin> set ''abc''" by simp
  show ?thesis
    using 1 2 parser_formatter_total [of "''1''" 10 "[]" "''abc''" "[7]" "''1-2''" "''4''"]
    by blast
qed

section \<open>Claims about reordering\<close>

lemma relative_start_in_range: "0 \<le> i \<Longrightarrow> i \<le> int n \<Longrightarrow> relative_start i n = nat i"
  by (simp add: relative_start_def)

text \<open>
  C6, the example as the specification states it: with \<open>fromIndex = 0\<close> and
  \<open>toIndex = 2\<close> on \<open>[A,B,C,D]\<close> the code does not yield \<open>[B,C,A,D]\<close>.
\<close>

theorem reorder_example_counterexample:
  "reorder (Some 0) 2 [Some ''A'', Some ''B'', Some ''C'', Some ''D'']
     \<noteq> [Some ''B'', Some ''C'', Some ''A'', Some ''D'']"
  by code_simp

text \<open>
  C6, amended. For indices inside the list, \<open>reorder\<close> takes the element at
  \<open>fromIndex\<close> out and puts it in at \<open>toIndex\<close>, lowered by one when
  \<open>fromIndex < toIndex\<close>. So \<open>fromIndex = 0\<close> and \<open>toIndex = 2\<close> on \<open>[A,B,C,D]\<close> yield
  \<open>[B,A,C,D]\<close>; \<open>[B,C,A,D]\<close> is what \<open>toIndex = 3\<close> yields.
\<close>

theorem reorder_moves_item:
  assumes "0 \<le> fromIndex" and "fromIndex < int (length selectedFiles)"
    and "0 \<le> toIndex" and "toIndex \<le> int (length selectedFiles)"
  shows "reorder (Some fromIndex) toIndex selectedFiles =
           (let toIndex' = (if fromIndex < toIndex then toIndex - 1 else toIndex);
                others = take (nat fromIndex) selectedFiles @ drop (nat fromIndex + 1) selectedFiles
            in take (nat toIndex') others @ selectedFiles ! nat fromIndex # drop (nat toIndex') others)
   \<and> reorder (Some 0) 2 [Some ''A'', Some ''B'', Some ''C'', Some ''D'']
       = [Some ''B'', Some ''A'', Some ''C'', Some ''D'']
   \<and> reorder (Some 0) 3 [Some ''A'', Some ''B'', Some ''C'', Some ''D'']
       = [Some ''B'', Some ''C'', Some ''A'', Some ''D'']"
proof -
  define t where "t = (if fromIndex < toIndex then toIndex - 1 else toIndex)"
  define others where
    "others = take (nat fromIndex) selectedFiles @ drop (nat fromIndex + 1) selectedFiles"
  have len: "int (length others) = int (length selectedFiles) - 1"
    using assms by (simp add: others_def)
  have t: "0 \<le> t" "t \<le> int (length others)"
    using assms len by (auto simp: t_def)
  have del: "splice_delete1 fromIndex selectedFiles = others"
    using assms by (simp add: splice_delete1_def others_def relative_start_in_range Let_def)
  have ins: "splice_insert t x others = take (nat t) others @ x # drop (nat t) others" for x
    using t by (simp add: splice_insert_def relative_start_in_range Let_def)
  have get: "array_get selectedFiles fromIndex = selectedFiles ! nat fromIndex"
    using assms by (simp add: array_get_def)
  have same: "take (nat t) others @ selectedFiles ! nat fromIndex # drop (nat t) others = selectedFiles"
    if "fromIndex = t"
  proof -
    have "nat fromIndex < length selectedFiles" using assms by simp
    then show ?thesis
      using that [symmetric] assms
      by (simp add: others_def id_take_nth_drop [symmetric] Suc_eq_plus1 [symmetric] del: Suc_eq_plus1)
  qed
  have "reorder (Some fromIndex) toIndex selectedFiles =
          take (nat t) others @ selectedFiles ! nat fromIndex # drop (nat t) others"
    using same by (simp add: reorder_def Let_def del ins get flip: t_def)
  moreover have "reorder (Some 0) 2 [Some ''A'', Some ''B'', Some ''C'', Some ''D'']
       = [Some ''B'', Some ''A'', Some ''C'', Some ''D'']" by code_simp
  moreover have "reorder (Some 0) 3 [Some ''A'', Some ''B'', Some ''C'', Some ''D'']
       = [Some ''B'', Some ''C'', Some ''A'', Some ''D'']" by code_simp
  ultimately show ?thesis by (simp add: Let_def t_def others_def)
qed

theorem reorder_moves_item_witness:
  "reorder (Some 3) 1 [Some ''A'', Some ''B'', Some ''C'', Some ''D'']
     = [Some ''A'', Some ''D'', Some ''B'', Some ''C'']"
proof -
  have "(0::int) \<le> 3" "(3::int) < int (length [Some ''A'', Some ''B'', Some ''C'', Some ''D''])"
    "(0::int) \<le> 1" "(1::int) \<le> int (length [Some ''A'', Some ''B'', Some ''C'', Some ''D''])"
    by simp_all
  from reorder_moves_item [OF this] show ?thesis by (simp add: Let_def)
qed

section \<open>Claims about the page selection\<close>

lemma foldl_push_filter:
  "foldl (\<lambda>selected pageNum. if P pageNum then selected @ [pageNum] else selected) acc xs
     = acc @ filter P xs"
  by (induction xs arbitrary: acc) simp_all

lemma getSelectedPagesArray_filter:
  "getSelectedPagesArray st = filter (\<lambda>p. p \<in> set (selectedPages st)) (thumbnails st)"
  by (simp add: getSelectedPagesArray_def foldl_push_filter Set_has_def)

lemma updatePagesInput_fields:
  "selectedPages (updatePagesInput st) = selectedPages st"
  "thumbnails (updatePagesInput st) = thumbnails st"
  "pagesInput (updatePagesInput st) =
     map_option (\<lambda>_. formatPageRanges (getSelectedPagesArray st)) (pagesInput st)"
  by (simp_all add: updatePagesInput_def split: option.splits)

lemma getSelectedPagesArray_updatePagesInput:
  "getSelectedPagesArray (updatePagesInput st) = getSelectedPagesArray st"
  by (simp add: getSelectedPagesArray_filter updatePagesInput_fields)

lemma togglePageSelection_fields:
  "thumbnails (togglePageSelection p st) = thumbnails st"
  "set (selectedPages (togglePageSelection p st)) =
     (if p \<in> set (selectedPages st) then set (selectedPages st) - {p}
      else insert p (set (selectedPages st)))"
  by (auto simp: togglePageSelection_def updatePagesInput_fields Set_has_def Set_add_def
      Set_delete_def)

lemma toggle_twice_set:
  "set (selectedPages (togglePageSelection p (togglePageSelection p st))) = set (selectedPages st)"
  by (auto simp: togglePageSelection_fields)

lemma togglePageSelection_pagesInput:
  "pagesInput (togglePageSelection p st) =
     map_option (\<lambda>_. formatPageRanges (getSelectedPagesArray (togglePageSelection p st)))
       (pagesInput st)"
proof -
  define st' where "st' =
    (if Set_has (selectedPages st) p
     then st\<lparr>selectedPages := Set_delete (selectedPages st) p\<rparr>
     else st\<lparr>selectedPages := Set_add (selectedPages st) p\<rparr>)"
  have e: "togglePageSelection p st = updatePagesInput st'"
    by (simp add: togglePageSelection_def st'_def)
  have "pagesInput st' = pagesInput st"
    by (simp add: st'_def)
  then show ?thesis
    unfolding e by (simp add: updatePagesInput_fields getSelectedPagesArray_updatePagesInput)
qed

text \<open>
  C7. For every state and every page \<open>p\<close>, toggling \<open>p\<close> twice gives back the same
  membership of \<open>selectedPages\<close> and the same ordered page list
  \<open>getSelectedPagesArray\<close>; the thumbnails keep their order, and the \<^verbatim>\<open>#pages\<close> input,
  when there is one, holds the text of that same list.
\<close>

theorem toggle_twice_restores_selection:
  "set (selectedPages (togglePageSelection p (togglePageSelection p st))) = set (selectedPages st)
   \<and> thumbnails (togglePageSelection p (togglePageSelection p st)) = thumbnails st
   \<and> getSelectedPagesArray (togglePageSelection p (togglePageSelection p st))
       = getSelectedPagesArray st
   \<and> pagesInput (togglePageSelection p (togglePageSelection p st))
       = map_option (\<lambda>_. formatPageRanges (getSelectedPagesArray st)) (pagesInput st)"
proof -
  let ?st = "togglePageSelection p (togglePageSelection p st)"
  have t: "thumbnails ?st = thumbnails st"
    by (simp add: togglePageSelection_fields(1))
  have g: "getSelectedPagesArray ?st = getSelectedPagesArray st"
    by (simp add: getSelectedPagesArray_filter t toggle_twice_set)
  have "pagesInput ?st = map_option (\<lambda>_. formatPageRanges (getSelectedPagesArray st)) (pagesInput st)"
    by (subst togglePageSelection_pagesInput, subst togglePageSelection_pagesInput)
      (simp add: g option.map_comp comp_def)
  with t g toggle_twice_set [of p st] show ?thesis by blast
qed

lemma set_selectAll_loop:
  "set (foldl (\<lambda>s index. Set_add s (int index + 1)) s0 [0 ..< n]) = set s0 \<union> {1 .. int n}"
proof (induction n)
  case 0
  show ?case by simp
next
  case (Suc n)
  have "{1 .. int (Suc n)} = insert (int n + 1) {1 .. int n}" by auto
  with Suc show ?case by (auto simp: Set_add_def Set_has_def)
qed

lemma selectAll_fields:
  "thumbnails (selectAll st) = thumbnails st"
  "set (selectedPages (selectAll st)) = set (selectedPages st) \<union> {1 .. int (length (thumbnails st))}"
  by (simp_all add: selectAll_def updatePagesInput_fields set_selectAll_loop)

lemma deselectAll_fields:
  "thumbnails (deselectAll st) = thumbnails st"
  "selectedPages (deselectAll st) = []"
  by (simp_all add: deselectAll_def updatePagesInput_fields)

text \<open>
  C8 as the specification states it: after page 2 was dragged before page 1 in a
  document of three pages, \<open>selectAll\<close> does not give the ordered selection \<open>[1,2,3]\<close>.
\<close>

theorem selectAll_ascending_counterexample:
  "getSelectedPagesArray
     (selectAll (thumbnail_drop 2 1 True
        \<lparr>selectedPages = [], thumbnails = [1, 2, 3], pagesInput = Some ''''\<rparr>))
   \<noteq> [1, 2, 3]"
  by code_simp

text \<open>
  C8, amended. When the thumbnails carry page numbers from 1 to their count, \<open>selectAll\<close>
  selects every page and the ordered selection is the thumbnails in their current visual
  order; that is the ascending sequence \<open>1..totalPages\<close> when the thumbnails are in
  ascending order. A \<open>deselectAll\<close> after it gives the empty selection.
\<close>

theorem selectAll_visual_order:
  "(set (thumbnails st) \<subseteq> {1 .. int (length (thumbnails st))} \<longrightarrow>
      getSelectedPagesArray (selectAll st) = thumbnails st)
   \<and> (thumbnails st = [1 .. totalPages] \<longrightarrow>
      getSelectedPagesArray (selectAll st) = [1 .. totalPages])
   \<and> selectedPages (deselectAll (selectAll st)) = []
   \<and> getSelectedPagesArray (deselectAll (selectAll st)) = []"
proof -
  have a: "getSelectedPagesArray (selectAll st) = thumbnails st"
    if "set (thumbnails st) \<subseteq> {1 .. int (length (thumbnails st))}"
  proof -
    have "\<forall>p \<in> set (thumbnails st). p \<in> set (selectedPages (selectAll st))"
      using that by (auto simp: selectAll_fields)
    then show ?thesis
      by (simp add: getSelectedPagesArray_filter selectAll_fields(1))
  qed
  have b: "getSelectedPagesArray (selectAll st) = [1 .. totalPages]"
    if "thumbnails st = [1 .. totalPages]"
  proof -
    have "set (thumbnails st) \<subseteq> {1 .. int (length (thumbnails st))}"
      using that by auto
    from a [OF this] that show ?thesis by simp
  qed
  have "getSelectedPagesArray (deselectAll (selectAll st)) = []"
    by (simp add: getSelectedPagesArray_filter deselectAll_fields)
  with a b show ?thesis by (simp add: deselectAll_fields)
qed

theorem selectAll_visual_order_witness:
  "getSelectedPagesArray (selectAll \<lparr>selectedPages = [3], thumbnails = [2, 1, 3], pagesInput = None\<rparr>)
     = [2, 1, 3]
   \<and> getSelectedPagesArray (selectAll \<lparr>selectedPages = [2], thumbnails = [1 .. 3], pagesInput = None\<rparr>)
     = [1 .. 3]"
proof -
  have 1: "set (thumbnails \<lparr>selectedPages = [3], thumbnails = [2, 1, 3], pagesInput = None\<rparr>)
     \<subseteq> {1 .. int (length (thumbnails \<lparr>selectedPages = [3], thumbnails = [2, 1, 3], pagesInput = None\<rparr>))}"
    by simp
  have 2: "thumbnails \<lparr>selectedPages = [2], thumbnails = [1 .. 3], pagesInput = None\<rparr> = [1 .. 3]"
    by simp
  show ?thesis
    using 1 2
      selectAll_visual_order [of "\<lparr>selectedPages = [3], thumbnails = [2, 1, 3], pagesInput = None\<rparr>" 0]
      selectAll_visual_order [of "\<lparr>selectedPages = [2], thumbnails = [1 .. 3], pagesInput = None\<rparr>" 3]
    by simp
qed

end
